theory Spec2Isabelle
  imports Main "HOL-Library.Sublist" "HOL-Library.Code_Target_Nat"
begin

section \<open>Strings, numbers and errors\<close>

text \<open>
  The diff engine of the repository (\<^verbatim>\<open>splitDiffByFiles\<close>, \<^verbatim>\<open>parseDiff\<close>,
  \<^verbatim>\<open>summarizeDiff\<close>) works on JavaScript strings. A string is modelled as a list
  of \<^typ>\<open>char\<close>, one \<^typ>\<open>char\<close> per code unit, so the model covers the code units
  0 to 255. Of the four line terminators that the regular-expression dot refuses, two lie in
  that range: line feed and carriage return. Numbers are natural numbers: every number the
  code handles is a decimal numeral read by \<^verbatim>\<open>parseInt\<close> or such a numeral
  incremented, and these are exact in JavaScript below \<open>2^53\<close>.
\<close>

datatype error = TypeError | DanglingReference

definition LF :: char where
  "LF = CHR 0x0A"

definition CR :: char where
  "CR = CHR 0x0D"

definition isLineTerminator :: "char \<Rightarrow> bool" where
  "isLineTerminator c = (c = LF \<or> c = CR)"

definition isDigit :: "char \<Rightarrow> bool" where
  "isDigit c = (c \<in> set ''0123456789'')"

definition digitVal :: "char \<Rightarrow> nat" where
  "digitVal c = of_char c - 48"

text \<open>\<^verbatim>\<open>parseInt\<close> on a string of decimal digits.\<close>

definition parseInt :: "string \<Rightarrow> nat" where
  "parseInt ds = foldl (\<lambda>n c. 10 * n + digitVal c) 0 ds"

text \<open>
  \<^verbatim>\<open>s.substring(a, b)\<close>: both arguments are clamped to the length and swapped when
  the first is the larger.
\<close>

definition substring :: "string \<Rightarrow> nat \<Rightarrow> nat \<Rightarrow> string" where
  "substring s a b =
     (let a' = min a (length s); b' = min b (length s)
      in take (max a' b' - min a' b') (drop (min a' b') s))"

text \<open>\<^verbatim>\<open>s.split('\n')\<close>: the empty string gives one empty line.\<close>

fun splitLines :: "string \<Rightarrow> string list" where
  "splitLines [] = [[]]"
| "splitLines (c # cs) =
     (if c = LF then [] # splitLines cs
      else (case splitLines cs of
              [] \<Rightarrow> [[c]]
            | l # ls \<Rightarrow> (c # l) # ls))"

text \<open>Reading \<^verbatim>\<open>xs[i]\<close>: \<^verbatim>\<open>undefined\<close> out of range.\<close>

definition jsIndex :: "'a list \<Rightarrow> nat \<Rightarrow> 'a option" where
  "jsIndex xs i = (if i < length xs then Some (xs ! i) else None)"

section \<open>The file segmenter\<close>

text \<open>
  The text before the first occurrence of a pattern, when the pattern occurs.
\<close>

fun beforeFirst :: "string \<Rightarrow> string \<Rightarrow> string option" where
  "beforeFirst pat [] = (if pat = [] then Some [] else None)"
| "beforeFirst pat (c # cs) =
     (if prefix pat (c # cs) then Some []
      else map_option ((#) c) (beforeFirst pat cs))"

text \<open>
  The regular expression \<^verbatim>\<open>/diff --git a\/(.*?) b\/(.*?)\n/\<close> tried at the start
  of \<open>s\<close>. Both groups are lazy and the dot refuses line terminators, so the match takes
  the text up to the first line terminator, that terminator has to be a line feed, and the
  first group ends before the first \<^verbatim>\<open> b/\<close> of that text. The result is the
  first group and the length of the match.
\<close>

definition matchHeaderAt :: "string \<Rightarrow> (string \<times> nat) option" where
  "matchHeaderAt s =
     (if prefix ''diff --git a/'' s then
        (let rest = drop 13 s;
             seg = takeWhile (\<lambda>c. \<not> isLineTerminator c) rest;
             after = dropWhile (\<lambda>c. \<not> isLineTerminator c) rest
         in if prefix [LF] after then
              (case beforeFirst '' b/'' seg of
                 Some g1 \<Rightarrow> Some (g1, 13 + length seg + 1)
               | None \<Rightarrow> None)
            else None)
      else None)"

text \<open>
  The leftmost match at or after a position: \<open>searchFrom u i\<close> searches the suffix
  \<open>u\<close> that starts at index \<open>i\<close>.
\<close>

fun searchFrom :: "string \<Rightarrow> nat \<Rightarrow> (nat \<times> string \<times> nat) option" where
  "searchFrom [] i = None"
| "searchFrom (c # cs) i =
     (case matchHeaderAt (c # cs) of
        Some (name, len) \<Rightarrow> Some (i, name, len)
      | None \<Rightarrow> searchFrom cs (Suc i))"

text \<open>\<^verbatim>\<open>filePattern.exec(diffStr)\<close> with the pattern's \<^verbatim>\<open>lastIndex\<close>.\<close>

definition exec :: "string \<Rightarrow> nat \<Rightarrow> (nat \<times> string \<times> nat) option" where
  "exec s lastIndex =
     (if length s < lastIndex then None else searchFrom (drop lastIndex s) lastIndex)"

record fileHeader =
  index :: nat
  fileName :: string

lemma takeWhile_shorter:
  "dropWhile P xs \<noteq> [] \<Longrightarrow> length (takeWhile P xs) < length xs"
  by (induction xs) (auto split: if_splits)

lemma matchHeaderAt_len:
  assumes "matchHeaderAt s = Some (g, l)"
  shows "0 < l \<and> l \<le> length s"
proof -
  let ?rest = "drop 13 s"
  let ?seg = "takeWhile (\<lambda>c. \<not> isLineTerminator c) ?rest"
  let ?after = "dropWhile (\<lambda>c. \<not> isLineTerminator c) ?rest"
  from assms have pre: "prefix ''diff --git a/'' s" and aft: "prefix [LF] ?after"
    and l: "l = 13 + length ?seg + 1"
    by (auto simp: matchHeaderAt_def Let_def split: if_splits option.splits)
  from pre have "length ''diff --git a/'' \<le> length s" by (rule prefix_length_le)
  then have len13: "13 \<le> length s" by simp
  have "?after \<noteq> []"
  proof
    assume "?after = []"
    with aft show False by simp
  qed
  then have "length ?seg < length ?rest" by (rule takeWhile_shorter)
  with len13 l show ?thesis by simp
qed

lemma searchFrom_bounds:
  "searchFrom u i = Some (j, name, len) \<Longrightarrow> i \<le> j \<and> 0 < len \<and> j + len \<le> i + length u"
proof (induction u arbitrary: i)
  case Nil
  then show ?case by simp
next
  case (Cons c cs)
  show ?case
  proof (cases "matchHeaderAt (c # cs)")
    case None
    with Cons.prems have "searchFrom cs (Suc i) = Some (j, name, len)" by simp
    from Cons.IH [OF this] show ?thesis by simp
  next
    case (Some m)
    obtain g l where m: "m = (g, l)" by (cases m)
    from Some m have "matchHeaderAt (c # cs) = Some (g, l)" by simp
    then have "0 < l \<and> l \<le> length (c # cs)" by (rule matchHeaderAt_len)
    moreover from Cons.prems Some m have "j = i" "len = l" by simp_all
    ultimately show ?thesis by simp
  qed
qed

lemma exec_bounds:
  assumes "exec s lastIndex = Some (i, name, len)"
  shows "lastIndex \<le> i \<and> 0 < len \<and> i + len \<le> length s"
proof -
  from assms have le: "lastIndex \<le> length s"
    and sf: "searchFrom (drop lastIndex s) lastIndex = Some (i, name, len)"
    by (auto simp: exec_def split: if_splits)
  from searchFrom_bounds [OF sf] le show ?thesis by auto
qed

text \<open>
  The \<^verbatim>\<open>while\<close> loop that collects the headers: each successful \<^verbatim>\<open>exec\<close>
  moves \<^verbatim>\<open>lastIndex\<close> to the end of the match, and the loop ends at the first failure.
\<close>

function findHeaders :: "string \<Rightarrow> nat \<Rightarrow> fileHeader list" where
  "findHeaders s lastIndex =
     (case exec s lastIndex of
        None \<Rightarrow> []
      | Some (i, name, len) \<Rightarrow> \<lparr>index = i, fileName = name\<rparr> # findHeaders s (i + len))"
  by pat_completeness auto
termination
  by (relation "measure (\<lambda>(s, lastIndex). Suc (length s) - lastIndex)")
     (auto dest!: exec_bounds)

section \<open>The result object of the segmenter\<close>

text \<open>
  \<^verbatim>\<open>Record<string, string>\<close> is a plain object. It is modelled as the list of its
  own properties in the order in which the language enumerates them: the keys that are array
  indices first, in ascending numeric order, then the other keys in the order of their
  creation. An array index is the canonical numeral of an integer below \<open>2^32 - 1\<close>.
\<close>

type_synonym obj = "(string \<times> string) list"

definition isArrayIndex :: "string \<Rightarrow> bool" where
  "isArrayIndex k =
     (case k of
        [] \<Rightarrow> False
      | c # cs \<Rightarrow> list_all isDigit k \<and> (cs = [] \<or> c \<noteq> CHR ''0'') \<and> parseInt k < 2 ^ 32 - 1)"

text \<open>Creating a property that the object does not have yet.\<close>

fun objInsert :: "string \<Rightarrow> string \<Rightarrow> obj \<Rightarrow> obj" where
  "objInsert k v [] = [(k, v)]"
| "objInsert k v (p # ps) =
     (if isArrayIndex k \<and> (\<not> isArrayIndex (fst p) \<or> parseInt k < parseInt (fst p))
      then (k, v) # p # ps
      else p # objInsert k v ps)"

text \<open>Writing a property that the object has: the value changes, the position stays.\<close>

fun objReplace :: "string \<Rightarrow> string \<Rightarrow> obj \<Rightarrow> obj" where
  "objReplace k v [] = []"
| "objReplace k v (p # ps) =
     (if fst p = k then (k, v) # ps else p # objReplace k v ps)"

text \<open>
  The assignment \<^verbatim>\<open>fileDiffs[fileName] = fileDiff\<close>. The key
  \<^verbatim>\<open>__proto__\<close> reaches the setter inherited from the object prototype, which
  ignores a string: no property is created.
\<close>

definition objSet :: "obj \<Rightarrow> string \<Rightarrow> string \<Rightarrow> obj" where
  "objSet ob k v =
     (if k = ''__proto__'' then ob
      else if k \<in> fst ` set ob then objReplace k v ob
      else objInsert k v ob)"

section \<open>splitDiffByFiles\<close>

text \<open>
  The \<^verbatim>\<open>for\<close> loop over the indices of \<^verbatim>\<open>fileHeaders\<close>. Reading a
  property of \<^verbatim>\<open>fileHeaders[i]\<close> throws a \<^verbatim>\<open>TypeError\<close> when the index
  is out of range. The source's test \<^verbatim>\<open>i < fileHeaders.length - 1\<close> is made
  inside the loop, where the length is positive, so the truncating subtraction agrees.
\<close>

function fileLoop :: "string \<Rightarrow> fileHeader list \<Rightarrow> nat \<Rightarrow> obj \<Rightarrow> error + obj" where
  "fileLoop diffStr fileHeaders i fileDiffs =
     (if i < length fileHeaders then
        (case jsIndex fileHeaders i of
           None \<Rightarrow> Inl TypeError
         | Some currentHeader \<Rightarrow>
             (case (if i < length fileHeaders - 1 then
                      (case jsIndex fileHeaders (i + 1) of
                         None \<Rightarrow> Inl TypeError
                       | Some nextHeader \<Rightarrow> Inr (index nextHeader))
                    else Inr (length diffStr)) of
                Inl e \<Rightarrow> Inl e
              | Inr endPos \<Rightarrow>
                  fileLoop diffStr fileHeaders (i + 1)
                    (objSet fileDiffs (fileName currentHeader)
                       (substring diffStr (index currentHeader) endPos))))
      else Inr fileDiffs)"
  by pat_completeness auto
termination
  by (relation "measure (\<lambda>(diffStr, fileHeaders, i, fileDiffs). length fileHeaders - i)") auto

definition splitDiffByFiles :: "string \<Rightarrow> error + obj" where
  "splitDiffByFiles diffStr = fileLoop diffStr (findHeaders diffStr 0) 0 []"

section \<open>The data model of the parser\<close>

datatype LineType = Added | Removed | Context

record DiffLine =
  ltype :: LineType
  content :: string
  oldLineNumber :: "nat option"
  newLineNumber :: "nat option"

record DiffChunk =
  oldStart :: nat
  oldLines :: nat
  newStart :: nat
  newLines :: nat
  lines :: "DiffLine list"

text \<open>
  A \<^verbatim>\<open>FileDiff\<close> holds its chunks in an array of object references. While the
  parser runs, a chunk is an address of the store (\<open>nat FileDiff\<close>); in the value that
  the parser returns the chunks stand in place (\<open>DiffChunk FileDiff\<close>).
\<close>

record 'c FileDiff =
  oldFile :: string
  newFile :: string
  isDeleted :: bool
  isNew :: bool
  chunks :: "'c list"

section \<open>The hunk header\<close>

text \<open>
  The regular expression \<^verbatim>\<open>/@@ -(\d+),?(\d*) \+(\d+),?(\d*) @@/\<close> tried at the
  start of \<open>s\<close>. The digit groups are greedy: each takes the whole run of digits, the
  comma is taken when it is there, and no shorter choice can succeed where this one fails.
  The result is the four groups.
\<close>

definition matchHunkAt :: "string \<Rightarrow> (string \<times> string \<times> string \<times> string) option" where
  "matchHunkAt s =
     (if prefix ''@@ -'' s then
        (let r1 = drop 4 s;
             g1 = takeWhile isDigit r1;
             r2 = dropWhile isDigit r1;
             r3 = (if prefix '','' r2 then drop 1 r2 else r2);
             g2 = takeWhile isDigit r3;
             r4 = dropWhile isDigit r3
         in if g1 \<noteq> [] \<and> prefix '' +'' r4 then
              (let r5 = drop 2 r4;
                   g3 = takeWhile isDigit r5;
                   r6 = dropWhile isDigit r5;
                   r7 = (if prefix '','' r6 then drop 1 r6 else r6);
                   g4 = takeWhile isDigit r7;
                   r8 = dropWhile isDigit r7
               in if g3 \<noteq> [] \<and> prefix '' @@'' r8 then Some (g1, g2, g3, g4) else None)
            else None)
      else None)"

text \<open>\<^verbatim>\<open>line.match(...)\<close>: the leftmost position where the expression matches.\<close>

fun matchHunkHeader :: "string \<Rightarrow> (string \<times> string \<times> string \<times> string) option" where
  "matchHunkHeader [] = None"
| "matchHunkHeader (c # cs) =
     (case matchHunkAt (c # cs) of
        Some m \<Rightarrow> Some m
      | None \<Rightarrow> matchHunkHeader cs)"

text \<open>
  The chunk that a matched header creates. A group that matched the empty string is falsy,
  so the count is 1; any other group, \<^verbatim>\<open>"0"\<close> too, is read by \<^verbatim>\<open>parseInt\<close>.
\<close>

definition newChunk :: "string \<times> string \<times> string \<times> string \<Rightarrow> DiffChunk" where
  "newChunk m =
     (case m of (m1, m2, m3, m4) \<Rightarrow>
        \<lparr>oldStart = parseInt m1,
         oldLines = (if m2 \<noteq> [] then parseInt m2 else 1),
         newStart = parseInt m3,
         newLines = (if m4 \<noteq> [] then parseInt m4 else 1),
         lines = []\<rparr>)"

section \<open>parseDiff\<close>

text \<open>
  The variables of the loop. \<^verbatim>\<open>currentChunk\<close> is a reference to an object that
  also sits in the \<^verbatim>\<open>chunks\<close> array of the file that was current when the chunk was
  created, so the chunks live in a store and the variable holds an address. A file object is
  changed only while it is \<^verbatim>\<open>currentDiff\<close>, so files are values.
\<close>

record pstate =
  diffs :: "nat FileDiff list"
  currentDiff :: "nat FileDiff option"
  currentChunk :: "nat option"
  heap :: "DiffChunk list"

definition initState :: pstate where
  "initState = \<lparr>diffs = [], currentDiff = None, currentChunk = None, heap = []\<rparr>"

definition emptyDiff :: "nat FileDiff" where
  "emptyDiff = \<lparr>oldFile = [], newFile = [], isDeleted = False, isNew = False, chunks = []\<rparr>"

definition noNewlineMarker :: string where
  "noNewlineMarker = CHR 0x5C # '' No newline at end of file''"

text \<open>
  The three kinds of content line. The line number is the chunk's own
  \<^verbatim>\<open>oldStart\<close> or \<^verbatim>\<open>newStart\<close> field, read and then incremented in place.
\<close>

definition addLine :: "DiffChunk \<Rightarrow> string \<Rightarrow> DiffChunk" where
  "addLine c line =
     c\<lparr>lines := lines c @
          [\<lparr>ltype = Added, content = drop 1 line,
            oldLineNumber = None, newLineNumber = Some (newStart c)\<rparr>],
       newStart := newStart c + 1\<rparr>"

definition removeLine :: "DiffChunk \<Rightarrow> string \<Rightarrow> DiffChunk" where
  "removeLine c line =
     c\<lparr>lines := lines c @
          [\<lparr>ltype = Removed, content = drop 1 line,
            oldLineNumber = Some (oldStart c), newLineNumber = None\<rparr>],
       oldStart := oldStart c + 1\<rparr>"

definition contextLine :: "DiffChunk \<Rightarrow> string \<Rightarrow> DiffChunk" where
  "contextLine c line =
     c\<lparr>lines := lines c @
          [\<lparr>ltype = Context, content = drop 1 line,
            oldLineNumber = Some (oldStart c), newLineNumber = Some (newStart c)\<rparr>],
       oldStart := oldStart c + 1,
       newStart := newStart c + 1\<rparr>"

text \<open>
  The last branch of the loop body: a content line, when \<^verbatim>\<open>currentChunk\<close> is set.
  The store has no chunk at the address only if the model itself is wrong; this is the error
  \<open>DanglingReference\<close>.
\<close>

definition contentStep :: "pstate \<Rightarrow> string \<Rightarrow> error + pstate" where
  "contentStep st line =
     (case currentChunk st of
        None \<Rightarrow> Inr st
      | Some a \<Rightarrow>
          (case jsIndex (heap st) a of
             None \<Rightarrow> Inl DanglingReference
           | Some c \<Rightarrow>
               if prefix ''+'' line then Inr (st\<lparr>heap := (heap st)[a := addLine c line]\<rparr>)
               else if prefix ''-'' line then Inr (st\<lparr>heap := (heap st)[a := removeLine c line]\<rparr>)
               else if prefix '' '' line then Inr (st\<lparr>heap := (heap st)[a := contextLine c line]\<rparr>)
               else if line = noNewlineMarker then Inr st
               else Inr st))"

text \<open>One turn of the loop over the lines.\<close>

definition step :: "pstate \<Rightarrow> string \<Rightarrow> error + pstate" where
  "step st line =
     (if prefix ''diff --git '' line then
        Inr (st\<lparr>diffs := (case currentDiff st of
                             Some d \<Rightarrow> diffs st @ [d]
                           | None \<Rightarrow> diffs st),
                currentDiff := Some emptyDiff\<rparr>)
      else
        (case currentDiff st of
           None \<Rightarrow> Inr st
         | Some d \<Rightarrow>
             if prefix ''--- a/'' line then
               Inr (st\<lparr>currentDiff := Some (d\<lparr>oldFile := drop 6 line\<rparr>)\<rparr>)
             else if prefix ''+++ b/'' line then
               Inr (st\<lparr>currentDiff := Some (d\<lparr>newFile := drop 6 line\<rparr>)\<rparr>)
             else if prefix ''+++ /dev/null'' line then
               Inr (st\<lparr>currentDiff := Some (d\<lparr>isDeleted := True\<rparr>)\<rparr>)
             else if prefix ''--- /dev/null'' line then
               Inr (st\<lparr>currentDiff := Some (d\<lparr>isNew := True\<rparr>)\<rparr>)
             else if prefix ''index '' line \<or> prefix ''new file mode '' line
                     \<or> prefix ''deleted file mode '' line then
               Inr st
             else if prefix ''@@ '' line then
               (case matchHunkHeader line of
                  Some m \<Rightarrow>
                    Inr (st\<lparr>heap := heap st @ [newChunk m],
                            currentChunk := Some (length (heap st)),
                            currentDiff := Some (d\<lparr>chunks := chunks d @ [length (heap st)]\<rparr>)\<rparr>)
                | None \<Rightarrow> Inr st)
             else contentStep st line))"

text \<open>The loop over the lines; an error ends it.\<close>

fun run :: "pstate \<Rightarrow> string list \<Rightarrow> error + pstate" where
  "run st [] = Inr st"
| "run st (line # ls) =
     (case step st line of
        Inl e \<Rightarrow> Inl e
      | Inr st' \<Rightarrow> run st' ls)"

text \<open>
  The value that is returned: the array \<^verbatim>\<open>diffs\<close>, after the last file is pushed,
  with every chunk reference replaced by the chunk it points to.
\<close>

fun derefAll :: "DiffChunk list \<Rightarrow> nat list \<Rightarrow> error + DiffChunk list" where
  "derefAll h [] = Inr []"
| "derefAll h (a # as) =
     (case jsIndex h a of
        None \<Rightarrow> Inl DanglingReference
      | Some c \<Rightarrow>
          (case derefAll h as of
             Inl e \<Rightarrow> Inl e
           | Inr cs \<Rightarrow> Inr (c # cs)))"

definition resolve :: "DiffChunk list \<Rightarrow> nat FileDiff \<Rightarrow> error + DiffChunk FileDiff" where
  "resolve h d =
     (case derefAll h (chunks d) of
        Inl e \<Rightarrow> Inl e
      | Inr cs \<Rightarrow>
          Inr \<lparr>oldFile = oldFile d, newFile = newFile d, isDeleted = isDeleted d,
               isNew = isNew d, chunks = cs\<rparr>)"

fun resolveAll :: "DiffChunk list \<Rightarrow> nat FileDiff list \<Rightarrow> error + DiffChunk FileDiff list" where
  "resolveAll h [] = Inr []"
| "resolveAll h (d # ds) =
     (case resolve h d of
        Inl e \<Rightarrow> Inl e
      | Inr r \<Rightarrow>
          (case resolveAll h ds of
             Inl e \<Rightarrow> Inl e
           | Inr rs \<Rightarrow> Inr (r # rs)))"

definition finish :: "pstate \<Rightarrow> error + DiffChunk FileDiff list" where
  "finish st =
     resolveAll (heap st)
       (case currentDiff st of
          Some d \<Rightarrow> diffs st @ [d]
        | None \<Rightarrow> diffs st)"

definition parseDiff :: "string \<Rightarrow> error + DiffChunk FileDiff list" where
  "parseDiff diffStr =
     (case run initState (splitLines diffStr) of
        Inl e \<Rightarrow> Inl e
      | Inr st \<Rightarrow> finish st)"

section \<open>summarizeDiff\<close>

record FileChange =
  file' :: string
  insertions :: nat
  deletions :: nat
  fcIsDeleted :: bool
  fcIsNew :: bool

record DiffSummary =
  filesChanged :: nat
  totalInsertions :: nat
  totalDeletions :: nat
  fileChanges :: "FileChange list"

text \<open>
  The two inner loops count into the pair \<open>(fileInsertions, fileDeletions)\<close>, the outer
  loop into \<open>(totalInsertions, totalDeletions, fileChanges)\<close>.
\<close>

definition countLine :: "nat \<times> nat \<Rightarrow> DiffLine \<Rightarrow> nat \<times> nat" where
  "countLine acc line =
     (case acc of (fileInsertions, fileDeletions) \<Rightarrow>
        (if ltype line = Added then fileInsertions + 1 else fileInsertions,
         if ltype line = Removed then fileDeletions + 1 else fileDeletions))"

definition countChunk :: "nat \<times> nat \<Rightarrow> DiffChunk \<Rightarrow> nat \<times> nat" where
  "countChunk acc chunk = foldl countLine acc (lines chunk)"

definition summarizeFile ::
  "nat \<times> nat \<times> FileChange list \<Rightarrow> DiffChunk FileDiff \<Rightarrow> nat \<times> nat \<times> FileChange list" where
  "summarizeFile acc d =
     (case acc of (totIns, totDel, changes) \<Rightarrow>
        (case foldl countChunk (0, 0) (chunks d) of (fileInsertions, fileDeletions) \<Rightarrow>
           (totIns + fileInsertions,
            totDel + fileDeletions,
            changes @
              [\<lparr>file' = (if isDeleted d then oldFile d else newFile d),
                insertions = fileInsertions,
                deletions = fileDeletions,
                fcIsDeleted = isDeleted d,
                fcIsNew = isNew d\<rparr>])))"

definition summarizeDiff :: "string \<Rightarrow> error + DiffSummary" where
  "summarizeDiff diffStr =
     (case parseDiff diffStr of
        Inl e \<Rightarrow> Inl e
      | Inr ds \<Rightarrow>
          (case foldl summarizeFile (0, 0, []) ds of (totIns, totDel, changes) \<Rightarrow>
             Inr \<lparr>filesChanged = length ds,
                  totalInsertions = totIns,
                  totalDeletions = totDel,
                  fileChanges = changes\<rparr>))"

section \<open>Notions for the statements\<close>

text \<open>
  The definitions of this section are not part of the program: they name what the statements
  and proofs below speak about, and the inputs of the examples.
\<close>

text \<open>The end of the segment of header \<open>i\<close>, as the loop computes it.\<close>

definition endPosAt :: "string \<Rightarrow> fileHeader list \<Rightarrow> nat \<Rightarrow> nat" where
  "endPosAt s hs i = (if i < length hs - 1 then index (hs ! (i + 1)) else length s)"

text \<open>
  The references of a parser state point into its store, and \<^verbatim>\<open>currentChunk\<close>
  is set only after \<^verbatim>\<open>currentDiff\<close>.
\<close>

definition wfState :: "pstate \<Rightarrow> bool" where
  "wfState st =
     ((case currentChunk st of
         None \<Rightarrow> True
       | Some a \<Rightarrow> a < length (heap st) \<and> currentDiff st \<noteq> None)
      \<and> list_all (\<lambda>d. list_all (\<lambda>a. a < length (heap st)) (chunks d))
           (case currentDiff st of Some d \<Rightarrow> diffs st @ [d] | None \<Rightarrow> diffs st))"

text \<open>The record that the outer loop of \<^verbatim>\<open>summarizeDiff\<close> pushes for one file.\<close>

definition fileChangeOf :: "DiffChunk FileDiff \<Rightarrow> FileChange" where
  "fileChangeOf d =
     (case foldl countChunk (0, 0) (chunks d) of (fileInsertions, fileDeletions) \<Rightarrow>
        \<lparr>file' = (if isDeleted d then oldFile d else newFile d),
         insertions = fileInsertions,
         deletions = fileDeletions,
         fcIsDeleted = isDeleted d,
         fcIsNew = isNew d\<rparr>)"







text \<open>A line that opens a hunk: it reaches the hunk branch and the expression matches.\<close>

definition opensHunk :: "string \<Rightarrow> bool" where
  "opensHunk line = (prefix ''@@ '' line \<and> matchHunkHeader line \<noteq> None)"

text \<open>The inputs of the examples about the parser; \<open>LF\<close> separates the lines.\<close>

definition threeContentLines :: string where
  "threeContentLines =
     ''diff --git a/x b/x'' @ [LF] @ ''@@ -5 +7 @@'' @ [LF] @ ''+a'' @ [LF] @ ''-b'' @ [LF] @ '' c''"

definition malformedAfterHunk :: string where
  "malformedAfterHunk =
     ''diff --git a/x b/x'' @ [LF] @ ''@@ -1 +1 @@'' @ [LF] @ ''@@ bad'' @ [LF] @ ''+foo''"


text \<open>The substring that the loop stores for header \<open>i\<close>.\<close>

definition segmentAt :: "string \<Rightarrow> fileHeader list \<Rightarrow> nat \<Rightarrow> string" where
  "segmentAt s hs i = substring s (index (hs ! i)) (endPosAt s hs i)"

text \<open>
  File names that make one property each, in the order of their creation: pairwise
  distinct, none \<^verbatim>\<open>__proto__\<close> and none an array index.
\<close>

definition plainNames :: "string list \<Rightarrow> bool" where
  "plainNames ns = (distinct ns \<and> list_all (\<lambda>n. n \<noteq> ''__proto__'' \<and> \<not> isArrayIndex n) ns)"

text \<open>
  The headers that the scan finds lie at increasing offsets inside the input, none before
  the position where the scan started.
\<close>

definition ascending :: "nat \<Rightarrow> fileHeader list \<Rightarrow> nat \<Rightarrow> bool" where
  "ascending lo hs hi = (sorted_wrt (<) (map index hs) \<and> list_all (\<lambda>h. lo \<le> index h \<and> index h < hi) hs)"

text \<open>The offset of the first header that the scan finds; the length when it finds none.\<close>

definition firstHeaderOffset :: "string \<Rightarrow> nat" where
  "firstHeaderOffset s = (case findHeaders s 0 of [] \<Rightarrow> length s | h # _ \<Rightarrow> index h)"

text \<open>The inputs of the examples about the segmenter.\<close>

definition samePathTwice :: string where
  "samePathTwice = ''diff --git a/x b/x'' @ [LF] @ ''diff --git a/x b/y'' @ [LF]"

definition textBeforeHeader :: string where
  "textBeforeHeader = ''junk'' @ [LF] @ ''diff --git a/x b/x'' @ [LF]"

definition numeralPath :: string where
  "numeralPath = ''diff --git a/b b/b'' @ [LF] @ ''diff --git a/7 b/7'' @ [LF]"

definition protoPath :: string where
  "protoPath = ''diff --git a/__proto__ b/__proto__'' @ [LF]"

definition twoFiles :: string where
  "twoFiles =
     ''diff --git a/x b/x'' @ [LF] @ ''+1'' @ [LF] @ ''diff --git a/y b/y'' @ [LF] @ ''-2'' @ [LF]"

section \<open>Both loops return\<close>

declare fileLoop.simps [simp del]

declare findHeaders.simps [simp del]

lemma fileLoop_step:
  "i < length hs \<Longrightarrow>
   fileLoop s hs i acc =
     fileLoop s hs (i + 1)
       (objSet acc (fileName (hs ! i)) (substring s (index (hs ! i)) (endPosAt s hs i)))"
  by (subst fileLoop.simps) (auto simp: jsIndex_def endPosAt_def)

lemma fileLoop_done: "\<not> i < length hs \<Longrightarrow> fileLoop s hs i acc = Inr acc"
  by (subst fileLoop.simps) simp

lemma fileLoop_total: "\<exists>m. fileLoop s hs i acc = Inr m"
proof (induction "length hs - i" arbitrary: i acc)
  case 0
  then show ?case by (simp add: fileLoop_done)
next
  case (Suc n)
  then have "i < length hs" and "n = length hs - (i + 1)" by simp_all
  then show ?case using Suc.hyps(1) by (simp add: fileLoop_step)
qed

lemma wfState_init: "wfState initState"
  by (simp add: wfState_def initState_def)

lemma contentStep_wf:
  assumes "wfState st"
  shows "\<exists>st'. contentStep st line = Inr st' \<and> wfState st'"
  using assms
  by (auto simp: contentStep_def wfState_def jsIndex_def split: option.splits)

lemma step_wf:
  assumes "wfState st"
  shows "\<exists>st'. step st line = Inr st' \<and> wfState st'"
proof (cases "prefix ''diff --git '' line")
  case True
  with assms show ?thesis
    by (auto simp: step_def wfState_def emptyDiff_def split: option.splits)
next
  case False
  show ?thesis
  proof (cases "currentDiff st")
    case None
    with False assms show ?thesis by (simp add: step_def)
  next
    case (Some d)
    with False assms contentStep_wf [OF assms, of line] show ?thesis
      by (auto simp: step_def wfState_def list_all_iff less_Suc_eq split: option.splits)
  qed
qed

lemma run_wf: "wfState st \<Longrightarrow> \<exists>st'. run st ls = Inr st' \<and> wfState st'"
proof (induction ls arbitrary: st)
  case Nil
  then show ?case by simp
next
  case (Cons l ls)
  from step_wf [OF Cons.prems, of l] obtain st1 where "step st l = Inr st1" "wfState st1"
    by blast
  with Cons.IH [of st1] show ?case by simp
qed

lemma derefAll_total: "list_all (\<lambda>a. a < length h) as \<Longrightarrow> derefAll h as = Inr (map ((!) h) as)"
  by (induction as) (auto simp: jsIndex_def)

lemma resolveAll_total:
  "list_all (\<lambda>d. list_all (\<lambda>a. a < length h) (chunks d)) ds \<Longrightarrow> \<exists>rs. resolveAll h ds = Inr rs"
  by (induction ds) (auto simp: resolve_def derefAll_total)

lemma finish_total: "wfState st \<Longrightarrow> \<exists>ds. finish st = Inr ds"
  unfolding finish_def wfState_def by (auto intro: resolveAll_total)

lemma parseDiff_total: "\<exists>ds. parseDiff s = Inr ds"
proof -
  from run_wf [OF wfState_init] obtain st where "run initState (splitLines s) = Inr st" "wfState st"
    by blast
  with finish_total [of st] show ?thesis by (auto simp: parseDiff_def)
qed

section \<open>Totality and the empty input\<close>

text \<open>
  Claim C6. \<^verbatim>\<open>splitDiffByFiles\<close> and \<^verbatim>\<open>parseDiff\<close> return a result on
  every string: no array read of the segmenter is out of range, no chunk reference of the
  parser is dangling, and both loops end.
\<close>

theorem total_on_all_strings:
  "(\<exists>m. splitDiffByFiles s = Inr m) \<and> (\<exists>ds. parseDiff s = Inr ds)"
  by (simp add: splitDiffByFiles_def fileLoop_total parseDiff_total)

text \<open>
  Claim C9. On the empty string \<^verbatim>\<open>splitDiffByFiles\<close> returns the empty mapping,
  \<^verbatim>\<open>parseDiff\<close> the empty sequence and \<^verbatim>\<open>summarizeDiff\<close> the summary with
  no file, no insertion and no deletion.
\<close>

theorem empty_input:
  "splitDiffByFiles [] = Inr []
   \<and> parseDiff [] = Inr []
   \<and> summarizeDiff [] =
       Inr \<lparr>filesChanged = 0, totalInsertions = 0, totalDeletions = 0, fileChanges = []\<rparr>"
  by code_simp

section \<open>The summary\<close>

lemma summarizeFile_eq:
  "summarizeFile (ti, td, ch) d =
     (ti + insertions (fileChangeOf d), td + deletions (fileChangeOf d), ch @ [fileChangeOf d])"
  by (simp add: summarizeFile_def fileChangeOf_def split: prod.splits)

lemma foldl_summarizeFile:
  "foldl summarizeFile (ti, td, ch) ds =
     (ti + sum_list (map (\<lambda>d. insertions (fileChangeOf d)) ds),
      td + sum_list (map (\<lambda>d. deletions (fileChangeOf d)) ds),
      ch @ map fileChangeOf ds)"
  by (induction ds arbitrary: ti td ch) (simp_all add: summarizeFile_eq)

lemma summarizeDiff_eq:
  assumes "parseDiff s = Inr ds"
  shows "summarizeDiff s =
           Inr \<lparr>filesChanged = length ds,
                totalInsertions = sum_list (map (\<lambda>d. insertions (fileChangeOf d)) ds),
                totalDeletions = sum_list (map (\<lambda>d. deletions (fileChangeOf d)) ds),
                fileChanges = map fileChangeOf ds\<rparr>"
  using assms by (simp add: summarizeDiff_def foldl_summarizeFile)

lemma fileChangeOf_sel:
  "file' (fileChangeOf d) = (if isDeleted d then oldFile d else newFile d)"
  "fcIsDeleted (fileChangeOf d) = isDeleted d"
  by (simp_all add: fileChangeOf_def split: prod.splits)

text \<open>
  Claim C5. In the summary that \<^verbatim>\<open>summarizeDiff\<close> returns, the insertions are the
  sum of the insertions of the per-file records, the deletions the sum of their deletions,
  and \<^verbatim>\<open>filesChanged\<close> is the number of per-file records.
\<close>

theorem summary_consistent:
  "\<exists>sm. summarizeDiff s = Inr sm
     \<and> totalInsertions sm = sum_list (map insertions (fileChanges sm))
     \<and> totalDeletions sm = sum_list (map deletions (fileChanges sm))
     \<and> filesChanged sm = length (fileChanges sm)"
proof -
  from parseDiff_total obtain ds where "parseDiff s = Inr ds" by blast
  then show ?thesis by (simp add: summarizeDiff_eq comp_def)
qed

text \<open>
  Claim C7. The per-file records follow the files of \<^verbatim>\<open>parseDiff\<close> one by one;
  each carries the file's deleted mark, and its name is the file's \<^verbatim>\<open>oldFile\<close> when
  the file is marked deleted and its \<^verbatim>\<open>newFile\<close> otherwise.
\<close>

theorem summary_file_name:
  "\<exists>ds sm. parseDiff s = Inr ds \<and> summarizeDiff s = Inr sm
     \<and> map fcIsDeleted (fileChanges sm) = map isDeleted ds
     \<and> map file' (fileChanges sm) = map (\<lambda>d. if isDeleted d then oldFile d else newFile d) ds"
proof -
  from parseDiff_total obtain ds where "parseDiff s = Inr ds" by blast
  then show ?thesis by (simp add: summarizeDiff_eq comp_def fileChangeOf_sel)
qed

section \<open>Hunk headers\<close>



lemma not_digit [simp]: "\<not> isDigit CHR '' ''" "\<not> isDigit CHR '',''"
  by (simp_all add: isDigit_def)






section \<open>The loop of the parser, line by line\<close>








lemma hunk_prefix_excludes:
  assumes "prefix ''@@ '' l"
  shows "\<not> prefix ''diff --git '' l" "\<not> prefix ''--- a/'' l" "\<not> prefix ''+++ b/'' l"
    "\<not> prefix ''+++ /dev/null'' l" "\<not> prefix ''--- /dev/null'' l" "\<not> prefix ''index '' l"
    "\<not> prefix ''new file mode '' l" "\<not> prefix ''deleted file mode '' l"
proof -
  from assms obtain r where l: "l = ''@@ '' @ r" by (auto simp: prefix_def)
  show "\<not> prefix ''diff --git '' l" "\<not> prefix ''--- a/'' l" "\<not> prefix ''+++ b/'' l"
    "\<not> prefix ''+++ /dev/null'' l" "\<not> prefix ''--- /dev/null'' l" "\<not> prefix ''index '' l"
    "\<not> prefix ''new file mode '' l" "\<not> prefix ''deleted file mode '' l"
    by (simp_all add: l)
qed

lemma step_malformed:
  assumes "prefix ''@@ '' l" "matchHunkHeader l = None"
  shows "step st l = Inr st"
  using assms hunk_prefix_excludes [OF assms(1)]
  by (simp add: step_def split: option.splits)

lemma step_no_chunk:
  assumes "currentChunk st = None" "\<not> opensHunk l"
  shows "\<exists>st'. step st l = Inr st' \<and> heap st' = heap st \<and> currentChunk st' = None"
  using assms
  by (auto simp: step_def contentStep_def opensHunk_def split: option.splits)

lemma run_no_chunk:
  assumes "currentChunk st = None" "list_all (\<lambda>l. \<not> opensHunk l) ls"
  shows "\<exists>st'. run st ls = Inr st' \<and> heap st' = heap st \<and> currentChunk st' = None"
  using assms
proof (induction ls arbitrary: st)
  case Nil
  then show ?case by simp
next
  case (Cons l ls)
  from Cons.prems have "\<not> opensHunk l" and rest: "list_all (\<lambda>l. \<not> opensHunk l) ls" by simp_all
  from step_no_chunk [OF Cons.prems(1) this(1)] obtain st1
    where s1: "step st l = Inr st1" "heap st1 = heap st" "currentChunk st1 = None" by blast
  from Cons.IH [OF s1(3) rest] s1 show ?case by auto
qed

section \<open>Start fields of a hunk\<close>

text \<open>
  Claim C2 says that the \<^verbatim>\<open>oldStart\<close> and \<^verbatim>\<open>newStart\<close> of a returned hunk are
  the numbers of its header and that the content lines do not change them. The loop numbers
  the lines with \<^verbatim>\<open>currentChunk.oldStart++\<close> and \<^verbatim>\<open>currentChunk.newStart++\<close>,
  so each content line moves the field it reads. For the header \<^verbatim>\<open>@@ -5 +7 @@\<close>
  followed by an added, a removed and a context line, the returned hunk has
  \<^verbatim>\<open>oldStart = 7\<close> and \<^verbatim>\<open>newStart = 9\<close>, while its lines carry the numbers counted
  from 5 and 7.
\<close>

theorem hunk_start_overwritten:
  "matchHunkHeader ''@@ -5 +7 @@'' = Some (''5'', [], ''7'', [])
   \<and> parseDiff threeContentLines =
       Inr [\<lparr>oldFile = [], newFile = [], isDeleted = False, isNew = False,
             chunks =
               [\<lparr>oldStart = 7, oldLines = 1, newStart = 9, newLines = 1,
                 lines = [\<lparr>ltype = Added, content = ''a'',
                           oldLineNumber = None, newLineNumber = Some 7\<rparr>,
                          \<lparr>ltype = Removed, content = ''b'',
                           oldLineNumber = Some 5, newLineNumber = None\<rparr>,
                          \<lparr>ltype = Context, content = ''c'',
                           oldLineNumber = Some 6, newLineNumber = Some 8\<rparr>]\<rparr>]\<rparr>]"
  by code_simp

section \<open>Malformed hunk headers\<close>

text \<open>
  Claim C3, as stated, fails: a line \<^verbatim>\<open>@@ bad\<close> opens no hunk, but
  \<^verbatim>\<open>currentChunk\<close> still refers to the hunk opened before, and the line
  \<^verbatim>\<open>+foo\<close> that follows is appended to that hunk.
\<close>

theorem malformed_header_counterexample:
  "prefix ''@@ '' ''@@ bad'' \<and> matchHunkHeader ''@@ bad'' = None
   \<and> parseDiff malformedAfterHunk =
       Inr [\<lparr>oldFile = [], newFile = [], isDeleted = False, isNew = False,
             chunks =
               [\<lparr>oldStart = 1, oldLines = 1, newStart = 2, newLines = 1,
                 lines = [\<lparr>ltype = Added, content = ''foo'',
                           oldLineNumber = None, newLineNumber = Some 1\<rparr>]\<rparr>]\<rparr>]"
  by code_simp

text \<open>
  Claim C3, amended. A line that begins with \<^verbatim>\<open>@@ \<close> and that the expression does
  not match leaves the state of the parser as it is, in any state: no hunk is opened. When
  no hunk has been opened before (\<^verbatim>\<open>currentChunk\<close> is unset), the lines that follow,
  up to the next line that opens a hunk, change no hunk and create none.
\<close>

theorem malformed_header_skipped:
  assumes "prefix ''@@ '' l" "matchHunkHeader l = None"
  shows "step st l = Inr st
         \<and> (currentChunk st = None \<and> list_all (\<lambda>x. \<not> opensHunk x) ls \<longrightarrow>
              (\<exists>st'. run st (l # ls) = Inr st' \<and> heap st' = heap st \<and> currentChunk st' = None))"
  using step_malformed [OF assms] run_no_chunk [of st ls] by auto

theorem malformed_header_skipped_witness:
  "prefix ''@@ '' ''@@ bad'' \<and> matchHunkHeader ''@@ bad'' = None
   \<and> currentChunk (initState\<lparr>currentDiff := Some emptyDiff\<rparr>) = None
   \<and> list_all (\<lambda>x. \<not> opensHunk x) [''+foo'', '' bar'', ''-baz'']
   \<and> run (initState\<lparr>currentDiff := Some emptyDiff\<rparr>) [''@@ bad'', ''+foo'', '' bar'', ''-baz'']
       = Inr (initState\<lparr>currentDiff := Some emptyDiff\<rparr>)"
proof -
  have h: "prefix ''@@ '' ''@@ bad''" "matchHunkHeader ''@@ bad'' = None"
    by code_simp+
  have c: "currentChunk (initState\<lparr>currentDiff := Some emptyDiff\<rparr>) = None"
    by (simp add: initState_def)
  have n: "list_all (\<lambda>x. \<not> opensHunk x) [''+foo'', '' bar'', ''-baz'']"
    by (simp add: opensHunk_def)
  have r: "run (initState\<lparr>currentDiff := Some emptyDiff\<rparr>) [''@@ bad'', ''+foo'', '' bar'', ''-baz'']
       = Inr (initState\<lparr>currentDiff := Some emptyDiff\<rparr>)"
    by code_simp
  from malformed_header_skipped [OF h, of "initState\<lparr>currentDiff := Some emptyDiff\<rparr>" "[''+foo'', '' bar'', ''-baz'']"]
    h c n r show ?thesis by simp
qed

section \<open>Content lines\<close>




section \<open>Headers without a line feed\<close>

text \<open>
  Text without a line feed, appended to an input, adds no match: every match of the header
  expression ends with a line feed.
\<close>

lemma dropWhile_no_LF:
  assumes "LF \<notin> set l"
  shows "\<not> prefix [LF] (dropWhile P l)"
proof
  assume "prefix [LF] (dropWhile P l)"
  then obtain r where "dropWhile P l = LF # r" by (auto simp: prefix_def)
  then have "LF \<in> set (dropWhile P l)" by simp
  then have "LF \<in> set l" by (rule set_mp [OF set_dropWhileD [THEN subsetI], rotated]) 
  with assms show False by simp
qed

lemma matchHeaderAt_no_LF:
  assumes "LF \<notin> set l"
  shows "matchHeaderAt l = None"
  using dropWhile_no_LF [of "drop 13 l"] assms
  by (auto simp: matchHeaderAt_def Let_def dest: in_set_dropD)

lemma matchHeaderAt_rest:
  assumes "prefix ''diff --git a/'' s" "drop 13 s = r"
  shows "matchHeaderAt s =
           (if prefix [LF] (dropWhile (\<lambda>c. \<not> isLineTerminator c) r) then
              (case beforeFirst '' b/'' (takeWhile (\<lambda>c. \<not> isLineTerminator c) r) of
                 Some g1 \<Rightarrow> Some (g1, 13 + length (takeWhile (\<lambda>c. \<not> isLineTerminator c) r) + 1)
               | None \<Rightarrow> None)
            else None)"
  using assms by (simp add: matchHeaderAt_def Let_def)

lemma matchHeaderAt_append:
  assumes "LF \<notin> set l"
  shows "matchHeaderAt (u @ l) = matchHeaderAt u"
proof (cases "prefix ''diff --git a/'' u")
  case True
  then have pu: "prefix ''diff --git a/'' (u @ l)" by (rule prefix_prefix)
  from True have "length ''diff --git a/'' \<le> length u" by (rule prefix_length_le)
  then have d: "drop 13 (u @ l) = drop 13 u @ l" by simp
  let ?P = "\<lambda>c. \<not> isLineTerminator c"
  let ?r = "drop 13 u"
  note mu = matchHeaderAt_rest [OF True refl]
  note mul = matchHeaderAt_rest [OF pu d]
  show ?thesis
  proof (cases "\<exists>x\<in>set ?r. isLineTerminator x")
    case True
    then have t: "takeWhile ?P (?r @ l) = takeWhile ?P ?r"
      and dr: "dropWhile ?P (?r @ l) = dropWhile ?P ?r @ l"
      and ne: "dropWhile ?P ?r \<noteq> []"
      by (auto simp: takeWhile_append1 dropWhile_append1)
    from ne have "prefix [LF] (dropWhile ?P ?r @ l) = prefix [LF] (dropWhile ?P ?r)"
      by (cases "dropWhile ?P ?r") simp_all
    then show ?thesis unfolding mu mul t dr by simp
  next
    case False
    then have e: "dropWhile ?P ?r = []"
      and dr: "dropWhile ?P (?r @ l) = dropWhile ?P l"
      by (auto simp: dropWhile_append2)
    show ?thesis
      unfolding mu mul dr e using dropWhile_no_LF [OF assms, of ?P] by simp
  qed
next
  case False
  then have nu: "matchHeaderAt u = None" by (simp add: matchHeaderAt_def)
  show ?thesis
  proof (cases "prefix ''diff --git a/'' (u @ l)")
    case nul: False
    then show ?thesis using nu by (simp add: matchHeaderAt_def)
  next
    case True
    have "length u < 13"
    proof (rule ccontr)
      assume "\<not> length u < 13"
      then have "length ''diff --git a/'' \<le> length u" by simp
      with True have "prefix ''diff --git a/'' u"
        by (metis prefix_length_prefix prefixI)
      with False show False by simp
    qed
    then have d: "drop 13 (u @ l) = drop (13 - length u) l" by simp
    have "LF \<notin> set (drop (13 - length u) l)" using assms by (auto dest: in_set_dropD)
    from dropWhile_no_LF [OF this] show ?thesis
      unfolding matchHeaderAt_rest [OF True d] nu by simp
  qed
qed

lemma searchFrom_no_LF: "LF \<notin> set l \<Longrightarrow> searchFrom l i = None"
  by (induction l arbitrary: i) (simp_all add: matchHeaderAt_no_LF)

lemma searchFrom_append:
  "LF \<notin> set l \<Longrightarrow> searchFrom (u @ l) i = searchFrom u i"
proof (induction u arbitrary: i)
  case Nil
  then show ?case by (simp add: searchFrom_no_LF)
next
  case (Cons c cs)
  from matchHeaderAt_append [OF Cons.prems, of "c # cs"] Cons.IH [OF Cons.prems]
  show ?case by (simp split: option.splits)
qed

lemma exec_append:
  assumes "LF \<notin> set l"
  shows "exec (pre @ l) lastIndex = exec pre lastIndex"
proof (cases "lastIndex \<le> length pre")
  case True
  then show ?thesis by (simp add: exec_def searchFrom_append [OF assms])
next
  case False
  have "LF \<notin> set (drop (lastIndex - length pre) l)" using assms by (auto dest: in_set_dropD)
  then have "searchFrom (drop (lastIndex - length pre) l) lastIndex = None"
    by (rule searchFrom_no_LF)
  with False show ?thesis by (simp add: exec_def)
qed

lemma findHeaders_append:
  assumes "LF \<notin> set l"
  shows "findHeaders (pre @ l) lastIndex = findHeaders pre lastIndex"
proof (induction pre lastIndex rule: findHeaders.induct)
  case (1 s lastIndex)
  show ?case
  proof (cases "exec s lastIndex")
    case None
    then show ?thesis
      by (subst findHeaders.simps, subst (2) findHeaders.simps) (simp add: exec_append [OF assms])
  next
    case (Some m)
    obtain i name len where m: "m = (i, name, len)" by (cases m)
    from "1.IH" [OF Some [unfolded m] refl refl] 
    have "findHeaders (s @ l) (i + len) = findHeaders s (i + len)" .
    then show ?thesis
      by (subst findHeaders.simps, subst (2) findHeaders.simps)
         (simp add: exec_append [OF assms] Some m)
  qed
qed

lemma findHeaders_no_LF: "LF \<notin> set l \<Longrightarrow> findHeaders l 0 = []"
  using findHeaders_append [of l "[]" 0]
  by (simp add: findHeaders.simps [of "[]"] exec_def)

text \<open>The keys of the result depend on the file names of the headers only.\<close>

lemma objReplace_keys: "map fst (objReplace k v ob) = map fst ob"
  by (induction ob) auto

lemma objInsert_keys:
  "map fst ob = map fst ob' \<Longrightarrow> map fst (objInsert k v ob) = map fst (objInsert k v' ob')"
proof (induction ob arbitrary: ob')
  case Nil
  then show ?case by simp
next
  case (Cons p ps)
  then obtain p' ps' where "ob' = p' # ps'" "fst p = fst p'" "map fst ps = map fst ps'"
    by (cases ob') auto
  with Cons.IH [of ps'] show ?case by auto
qed

lemma objSet_keys:
  assumes "map fst ob = map fst ob'"
  shows "map fst (objSet ob k v) = map fst (objSet ob' k v')"
proof -
  from assms have "fst ` set ob = fst ` set ob'" by (metis set_map)
  with assms objInsert_keys [OF assms] show ?thesis
    by (simp add: objSet_def objReplace_keys)
qed

lemma fileLoop_keys:
  "map fst acc = map fst acc' \<Longrightarrow>
   map_sum id (map fst) (fileLoop s hs i acc) = map_sum id (map fst) (fileLoop s' hs i acc')"
proof (induction "length hs - i" arbitrary: i acc acc')
  case 0
  then show ?case by (simp add: fileLoop_done)
next
  case (Suc n)
  then have i: "i < length hs" and n: "n = length hs - (i + 1)" by simp_all
  show ?case
    unfolding fileLoop_step [OF i]
    by (rule Suc.hyps(1) [OF n]) (rule objSet_keys [OF Suc.prems])
qed

text \<open>
  Claim C10. A header line \<^verbatim>\<open>diff --git a/p b/q\<close> that ends the input without a
  line feed is not found by the scan: the headers found are those of the input without that
  line, the result has the keys it has without that line, and an input that is only such a
  line gives the empty mapping.
\<close>

theorem unterminated_header_not_recognized:
  assumes "LF \<notin> set p" "LF \<notin> set q"
  shows "findHeaders (pre @ ''diff --git a/'' @ p @ '' b/'' @ q) 0 = findHeaders pre 0
    \<and> map_sum id (map fst) (splitDiffByFiles (pre @ ''diff --git a/'' @ p @ '' b/'' @ q))
        = map_sum id (map fst) (splitDiffByFiles pre)
    \<and> splitDiffByFiles (''diff --git a/'' @ p @ '' b/'' @ q) = Inr []"
proof -
  let ?h = "''diff --git a/'' @ p @ '' b/'' @ q"
  have h: "LF \<notin> set ?h" using assms by (simp add: LF_def)
  have 1: "findHeaders (pre @ ?h) 0 = findHeaders pre 0" by (rule findHeaders_append [OF h])
  have 2: "map_sum id (map fst) (splitDiffByFiles (pre @ ?h))
        = map_sum id (map fst) (splitDiffByFiles pre)"
    unfolding splitDiffByFiles_def 1 by (rule fileLoop_keys) simp
  have 3: "splitDiffByFiles ?h = Inr []"
    unfolding splitDiffByFiles_def findHeaders_no_LF [OF h] by (simp add: fileLoop_done)
  from 1 2 3 show ?thesis by simp
qed

theorem unterminated_header_not_recognized_witness:
  "LF \<notin> set ''x''
   \<and> findHeaders ((''diff --git a/w b/w'' @ [LF]) @ ''diff --git a/'' @ ''x'' @ '' b/'' @ ''x'') 0
       = findHeaders (''diff --git a/w b/w'' @ [LF]) 0
   \<and> findHeaders (''diff --git a/w b/w'' @ [LF]) 0 = [\<lparr>index = 0, fileName = ''w''\<rparr>]
   \<and> splitDiffByFiles (''diff --git a/'' @ ''x'' @ '' b/'' @ ''x'') = Inr []"
proof -
  have a: "LF \<notin> set ''x''" by (simp add: LF_def)
  have e: "findHeaders (''diff --git a/w b/w'' @ [LF]) 0 = [\<lparr>index = 0, fileName = ''w''\<rparr>]"
    by code_simp
  note t = unterminated_header_not_recognized [OF a a, of "''diff --git a/w b/w'' @ [LF]"]
  show ?thesis
    by (intro conjI a e t [THEN conjunct1] t [THEN conjunct2, THEN conjunct2])
qed

section \<open>Segmentation coverage\<close>

lemma objInsert_append: "\<not> isArrayIndex k \<Longrightarrow> objInsert k v ob = ob @ [(k, v)]"
  by (induction ob) auto

lemma objSet_append:
  assumes "k \<noteq> ''__proto__''" "k \<notin> fst ` set ob" "\<not> isArrayIndex k"
  shows "objSet ob k v = ob @ [(k, v)]"
  using assms by (simp add: objSet_def objInsert_append)

lemma fileLoop_plain:
  assumes "plainNames (map fst acc @ map fileName (drop i hs))"
  shows "fileLoop s hs i acc =
           Inr (acc @ map (\<lambda>j. (fileName (hs ! j), segmentAt s hs j)) [i..<length hs])"
  using assms
proof (induction "length hs - i" arbitrary: i acc)
  case 0
  then show ?case by (simp add: fileLoop_done)
next
  case (Suc n)
  then have i: "i < length hs" and n: "n = length hs - (i + 1)" by simp_all
  from i have dr: "drop i hs = hs ! i # drop (i + 1) hs" by (simp add: Cons_nth_drop_Suc)
  let ?k = "fileName (hs ! i)"
  from Suc.prems have k: "?k \<noteq> ''__proto__''" "?k \<notin> fst ` set acc" "\<not> isArrayIndex ?k"
    by (auto simp: plainNames_def dr)
  have step: "objSet acc ?k (substring s (index (hs ! i)) (endPosAt s hs i))
               = acc @ [(?k, segmentAt s hs i)]"
    by (simp add: objSet_append [OF k] segmentAt_def)
  have "plainNames (map fst (acc @ [(?k, segmentAt s hs i)]) @ map fileName (drop (i + 1) hs))"
    using Suc.prems by (simp add: dr)
  from Suc.hyps(1) [OF n this] i show ?case
    by (simp add: fileLoop_step step upt_conv_Cons)
qed

lemma findHeaders_ascending: "ascending lastIndex (findHeaders s lastIndex) (length s)"
proof (induction s lastIndex rule: findHeaders.induct)
  case (1 s lastIndex)
  show ?case
  proof (cases "exec s lastIndex")
    case None
    then show ?thesis by (subst findHeaders.simps) (simp add: ascending_def)
  next
    case (Some m)
    obtain i name len where m: "m = (i, name, len)" by (cases m)
    from exec_bounds [OF Some [unfolded m]]
    have b: "lastIndex \<le> i" "0 < len" "i + len \<le> length s" by simp_all
    from "1.IH" [OF Some [unfolded m] refl refl]
    have "ascending (i + len) (findHeaders s (i + len)) (length s)" .
    with b show ?thesis
      by (subst findHeaders.simps) (auto simp: Some m ascending_def list_all_iff)
  qed
qed

lemma substring_take_drop:
  "a \<le> b \<Longrightarrow> b \<le> length s \<Longrightarrow> substring s a b = take (b - a) (drop a s)"
  by (simp add: substring_def Let_def min_def max_def)

lemma take_drop_join: "a \<le> b \<Longrightarrow> take (b - a) (drop a s) @ drop b s = drop a s"
  by (metis add_diff_cancel_left' drop_drop le_Suc_ex append_take_drop_id add.commute)

lemma segments_concat:
  assumes "sorted_wrt (<) (map index hs)" "list_all (\<lambda>h. index h < length s) hs" "i < length hs"
  shows "concat (map (segmentAt s hs) [i..<length hs]) = drop (index (hs ! i)) s"
  using assms(3)
proof (induction "length hs - i" arbitrary: i)
  case 0
  then show ?case by simp
next
  case (Suc n)
  then have i: "i < length hs" and n: "n = length hs - (i + 1)" by simp_all
  have bound: "index (hs ! j) < length s" if "j < length hs" for j
    using assms(2) that by (simp add: list_all_length)
  show ?case
  proof (cases "i + 1 < length hs")
    case True
    from assms(1) i True have lt: "index (hs ! i) < index (hs ! (i + 1))"
      by (simp add: sorted_wrt_iff_nth_less)
    from True have "i < length hs - 1" by simp
    then have e: "endPosAt s hs i = index (hs ! (i + 1))" by (simp add: endPosAt_def)
    have seg: "segmentAt s hs i = take (index (hs ! (i + 1)) - index (hs ! i)) (drop (index (hs ! i)) s)"
      unfolding segmentAt_def e using lt bound [OF True]
      by (intro substring_take_drop) simp_all
    from Suc.hyps(1) [OF n True]
    have "concat (map (segmentAt s hs) [i + 1..<length hs]) = drop (index (hs ! (i + 1))) s" .
    with i lt show ?thesis
      by (simp add: upt_conv_Cons seg take_drop_join)
  next
    case False
    with i have last: "i + 1 = length hs" by simp
    then have "\<not> i < length hs - 1" by simp
    then have e: "endPosAt s hs i = length s" by (simp add: endPosAt_def)
    have seg: "segmentAt s hs i = drop (index (hs ! i)) s"
      unfolding segmentAt_def e using bound [OF i]
      by (simp add: substring_take_drop)
    from i last show ?thesis by (simp add: upt_conv_Cons seg)
  qed
qed

lemma firstHeaderOffset_0:
  assumes "matchHeaderAt s \<noteq> None"
  shows "firstHeaderOffset s = 0"
proof -
  from assms obtain g l where m: "matchHeaderAt s = Some (g, l)" by auto
  with matchHeaderAt_len [OF m] have "s \<noteq> []" by auto
  then obtain c cs where s: "s = c # cs" by (cases s) auto
  from m have "exec s 0 = Some (0, g, l)" by (simp add: exec_def s)
  then show ?thesis
    by (simp add: firstHeaderOffset_def findHeaders.simps [of s 0])
qed

text \<open>
  Claim C1, as stated, fails in four ways. Two headers with the same \<^verbatim>\<open>a/\<close> path make
  one entry, which holds the second segment. Text before the first header is in no segment.
  A path that is an array index is enumerated before the paths created earlier, so the
  segments come out of order. The path \<^verbatim>\<open>__proto__\<close> makes no entry.
\<close>

theorem segmentation_counterexample:
  "length (findHeaders samePathTwice 0) = 2
   \<and> splitDiffByFiles samePathTwice = Inr [(''x'', ''diff --git a/x b/y'' @ [LF])]
   \<and> length (findHeaders textBeforeHeader 0) = 1
   \<and> splitDiffByFiles textBeforeHeader = Inr [(''x'', ''diff --git a/x b/x'' @ [LF])]
   \<and> length (findHeaders numeralPath 0) = 2
   \<and> splitDiffByFiles numeralPath =
       Inr [(''7'', ''diff --git a/7 b/7'' @ [LF]), (''b'', ''diff --git a/b b/b'' @ [LF])]
   \<and> length (findHeaders protoPath 0) = 1
   \<and> splitDiffByFiles protoPath = Inr []"
  by code_simp

text \<open>
  Claim C1, amended. Let the header expression match \<open>k\<close> times in the input, with
  captured \<^verbatim>\<open>a/\<close> paths that are pairwise distinct, none \<^verbatim>\<open>__proto__\<close> and
  none an array index. Then \<^verbatim>\<open>splitDiffByFiles\<close> returns exactly \<open>k\<close> entries,
  keyed by the paths in the order of the headers, and their substrings, concatenated in
  that order, are the input from the offset of the first header on: the whole input when it
  begins with a header.
\<close>

theorem segmentation_coverage:
  assumes "plainNames (map fileName (findHeaders s 0))"
  shows "\<exists>m. splitDiffByFiles s = Inr m
           \<and> length m = length (findHeaders s 0)
           \<and> map fst m = map fileName (findHeaders s 0)
           \<and> concat (map snd m) = drop (firstHeaderOffset s) s
           \<and> (matchHeaderAt s \<noteq> None \<longrightarrow> concat (map snd m) = s)"
proof -
  let ?hs = "findHeaders s 0"
  let ?m = "map (\<lambda>j. (fileName (?hs ! j), segmentAt s ?hs j)) [0..<length ?hs]"
  from assms have "plainNames (map fst ([] :: obj) @ map fileName (drop 0 ?hs))" by simp
  from fileLoop_plain [OF this, of s] have m: "splitDiffByFiles s = Inr ?m"
    by (simp add: splitDiffByFiles_def)
  have "map fst ?m = map ((!) (map fileName ?hs)) [0..<length (map fileName ?hs)]"
    by simp
  then have keys: "map fst ?m = map fileName ?hs"
    by (simp only: map_nth)
  from findHeaders_ascending [of 0 s]
  have asc: "sorted_wrt (<) (map index ?hs)" "list_all (\<lambda>h. index h < length s) ?hs"
    by (simp_all add: ascending_def list_all_iff)
  have cat: "concat (map snd ?m) = drop (firstHeaderOffset s) s"
  proof (cases ?hs)
    case Nil
    then show ?thesis by (simp add: firstHeaderOffset_def)
  next
    case (Cons h hs')
    then have "0 < length ?hs" by simp
    from segments_concat [OF asc this] Cons show ?thesis
      by (simp add: firstHeaderOffset_def comp_def)
  qed
  from m keys cat show ?thesis by (simp add: firstHeaderOffset_0)
qed

theorem segmentation_coverage_witness:
  "plainNames (map fileName (findHeaders twoFiles 0))
   \<and> matchHeaderAt twoFiles \<noteq> None
   \<and> length (findHeaders twoFiles 0) = 2
   \<and> splitDiffByFiles twoFiles =
       Inr [(''x'', ''diff --git a/x b/x'' @ [LF] @ ''+1'' @ [LF]),
            (''y'', ''diff --git a/y b/y'' @ [LF] @ ''-2'' @ [LF])]
   \<and> concat (map snd [(''x'', ''diff --git a/x b/x'' @ [LF] @ ''+1'' @ [LF]),
                        (''y'', ''diff --git a/y b/y'' @ [LF] @ ''-2'' @ [LF])]) = twoFiles"
proof -
  have p: "plainNames (map fileName (findHeaders twoFiles 0))"
    by code_simp
  have h: "matchHeaderAt twoFiles \<noteq> None"
    by code_simp
  have k: "length (findHeaders twoFiles 0) = 2"
    by code_simp
  have r: "splitDiffByFiles twoFiles =
       Inr [(''x'', ''diff --git a/x b/x'' @ [LF] @ ''+1'' @ [LF]),
            (''y'', ''diff --git a/y b/y'' @ [LF] @ ''-2'' @ [LF])]"
    by code_simp
  from segmentation_coverage [OF p] obtain m
    where m: "splitDiffByFiles twoFiles = Inr m"
      and c: "matchHeaderAt twoFiles \<noteq> None \<longrightarrow> concat (map snd m) = twoFiles"
    by blast
  from c h have cc: "concat (map snd m) = twoFiles" by (rule mp)
  from m have meq: "m = [(''x'', ''diff --git a/x b/x'' @ [LF] @ ''+1'' @ [LF]),
                         (''y'', ''diff --git a/y b/y'' @ [LF] @ ''-2'' @ [LF])]"
    unfolding r by (rule sum.inject(2) [THEN iffD1, symmetric])
  show ?thesis
    by (intro conjI p h k r cc [unfolded meq])
qed

end
